theory Spec2Isabelle
  imports Complex_Main
begin

section \<open>The photo gallery: data model\<close>

text \<open>
  Modelled from the spec: the type declarations of \<^verbatim>\<open>@/core/types\<close> are not among the
  sources. The spec describes a Photo as a title with URLs and dimensions for a small and
  a medium image variant, and a PhotoSet as an identifier, a title and an ordered sequence
  of Photo. \<^verbatim>\<open>Gallery.tsx\<close> reads \<^verbatim>\<open>photo.title\<close>, \<^verbatim>\<open>photo.small.url\<close>,
  \<^verbatim>\<open>photo.medium.url\<close>, \<^verbatim>\<open>photoSet.id\<close>, \<^verbatim>\<open>photoSet.title\<close> and
  \<^verbatim>\<open>photoSet.photos\<close>. The PhotoSet fields \<^verbatim>\<open>id\<close> and \<^verbatim>\<open>title\<close> are written
  \<open>set_id\<close> and \<open>set_title\<close> here.
\<close>

record Image =
  url :: string
  width :: nat
  height :: nat

record Photo =
  title :: string
  small :: Image
  medium :: Image

record PhotoSet =
  set_id :: string
  set_title :: string
  photos :: "Photo list"

section \<open>JavaScript values\<close>

text \<open>
  A value that may be \<^verbatim>\<open>undefined\<close> or \<^verbatim>\<open>null\<close>. Reading an array at an index
  that is not one of its elements gives \<^verbatim>\<open>undefined\<close>; reading a property of
  \<^verbatim>\<open>undefined\<close> throws a TypeError.
\<close>

datatype 'a jsval = Undefined | Null | Val 'a

datatype error = TypeError

definition js_at :: "'a list \<Rightarrow> int \<Rightarrow> 'a jsval" where
  "js_at xs i = (if 0 \<le> i \<and> i < int (length xs) then Val (xs ! nat i) else Undefined)"

text \<open>
  \<^verbatim>\<open>xs[index]\<close> for \<^verbatim>\<open>index: number | null\<close>: the index \<^verbatim>\<open>null\<close> is the property
  name \<^verbatim>\<open>"null"\<close>, which no array has.
\<close>

definition js_index :: "'a list \<Rightarrow> nat option \<Rightarrow> 'a jsval" where
  "js_index xs index = (case index of None \<Rightarrow> Undefined | Some i \<Rightarrow> js_at xs (int i))"

text \<open>Truthiness: \<^verbatim>\<open>undefined\<close> and \<^verbatim>\<open>null\<close> are falsy, an object is truthy.\<close>

fun truthy :: "'a jsval \<Rightarrow> bool" where
  "truthy Undefined = False"
| "truthy Null = False"
| "truthy (Val _) = True"

text \<open>
  A JavaScript number: a finite number, an infinity or NaN. Finite numbers are real
  numbers here: where the program rounds the result of an operation to the nearest double,
  the model keeps the exact result, so a finite number of the model and the double of the
  program agree up to rounding only. The sign of zero is not modelled either (every zero this
  program divides by is \<open>+0\<close>: a difference or sum of non-negative integers, or the literal
  \<open>0\<close>).
\<close>

datatype jsnum = Num real | PosInf | NegInf | NaN

fun is_finite :: "jsnum \<Rightarrow> bool" where
  "is_finite (Num _) = True"
| "is_finite _ = False"

fun js_add :: "jsnum \<Rightarrow> jsnum \<Rightarrow> jsnum" where
  "js_add (Num a) (Num b) = Num (a + b)"
| "js_add NaN _ = NaN"
| "js_add _ NaN = NaN"
| "js_add PosInf NegInf = NaN"
| "js_add NegInf PosInf = NaN"
| "js_add PosInf _ = PosInf"
| "js_add NegInf _ = NegInf"
| "js_add _ PosInf = PosInf"
| "js_add _ NegInf = NegInf"

definition js_inf :: "bool \<Rightarrow> jsnum" where
  "js_inf positive = (if positive then PosInf else NegInf)"

fun js_mul :: "jsnum \<Rightarrow> jsnum \<Rightarrow> jsnum" where
  "js_mul (Num a) (Num b) = Num (a * b)"
| "js_mul NaN _ = NaN"
| "js_mul _ NaN = NaN"
| "js_mul (Num a) PosInf = (if a = 0 then NaN else js_inf (0 < a))"
| "js_mul (Num a) NegInf = (if a = 0 then NaN else js_inf (a < 0))"
| "js_mul PosInf (Num b) = (if b = 0 then NaN else js_inf (0 < b))"
| "js_mul NegInf (Num b) = (if b = 0 then NaN else js_inf (b < 0))"
| "js_mul PosInf PosInf = PosInf"
| "js_mul NegInf NegInf = PosInf"
| "js_mul PosInf NegInf = NegInf"
| "js_mul NegInf PosInf = NegInf"

fun js_div :: "jsnum \<Rightarrow> jsnum \<Rightarrow> jsnum" where
  "js_div (Num a) (Num b) =
     (if b = 0 then (if a = 0 then NaN else js_inf (0 < a)) else Num (a / b))"
| "js_div NaN _ = NaN"
| "js_div _ NaN = NaN"
| "js_div (Num a) PosInf = Num 0"
| "js_div (Num a) NegInf = Num 0"
| "js_div PosInf (Num b) = js_inf (0 \<le> b)"
| "js_div NegInf (Num b) = js_inf (b < 0)"
| "js_div _ _ = NaN"

fun js_sin :: "jsnum \<Rightarrow> jsnum" where
  "js_sin (Num a) = Num (sin a)"
| "js_sin _ = NaN"

fun js_cos :: "jsnum \<Rightarrow> jsnum" where
  "js_cos (Num a) = Num (cos a)"
| "js_cos _ = NaN"



definition Math_PI :: jsnum where
  "Math_PI = Num pi"

section \<open>Scene: the layout of the groups\<close>

text \<open>
  One entry of the \<^verbatim>\<open>groups\<close> array, \<^verbatim>\<open>{ start, len, end }\<close>. The values are sums
  and differences of array lengths and small literals, so they are integers.
\<close>

record Group =
  g_start :: int
  g_len :: int
  g_end :: int

definition gapBetweenGroups :: int where
  "gapBetweenGroups = 2"

text \<open>
  The callback of \<^verbatim>\<open>photoSets.reduce\<close>: \<open>groups\<close> is the accumulator, \<open>s\<close> the
  current photo set and \<open>index\<close> its index.
\<close>

definition group_step :: "Group list \<Rightarrow> PhotoSet \<Rightarrow> nat \<Rightarrow> error + Group list" where
  "group_step groups s index =
     (let len = int (length (photos s)) - 1 in
      if index = 0 then
        (let start = 0; end = start + len in
         Inr (groups @ [\<lparr>g_start = start, g_len = len, g_end = end\<rparr>]))
      else
        (case js_at groups (int index - 1) of
           Val prev \<Rightarrow>
             (let start = g_start prev + len + gapBetweenGroups; end = start + len in
              Inr (groups @ [\<lparr>g_start = start, g_len = len, g_end = end\<rparr>]))
         | _ \<Rightarrow> Inl TypeError))"

fun reduce_groups :: "Group list \<Rightarrow> nat \<Rightarrow> PhotoSet list \<Rightarrow> error + Group list" where
  "reduce_groups groups index [] = Inr groups"
| "reduce_groups groups index (s # rest) =
     (case group_step groups s index of
        Inl e \<Rightarrow> Inl e
      | Inr groups' \<Rightarrow> reduce_groups groups' (Suc index) rest)"

definition compute_groups :: "PhotoSet list \<Rightarrow> error + Group list" where
  "compute_groups photoSets = reduce_groups [] 0 photoSets"

text \<open>\<^verbatim>\<open>const total = groups[groups.length - 1].end\<close>\<close>

definition total_of :: "Group list \<Rightarrow> error + int" where
  "total_of groups =
     (case js_at groups (int (length groups) - 1) of
        Val g \<Rightarrow> Inr (g_end g)
      | _ \<Rightarrow> Inl TypeError)"

definition scene_total :: "PhotoSet list \<Rightarrow> error + int" where
  "scene_total photoSets =
     (case compute_groups photoSets of
        Inl e \<Rightarrow> Inl e
      | Inr groups \<Rightarrow> total_of groups)"

text \<open>
  \<^verbatim>\<open>pointToRadian\<close>, \<^verbatim>\<open>startOfGroup\<close> and \<^verbatim>\<open>lenOfGroup\<close> are closures over
  \<^verbatim>\<open>total\<close> and \<^verbatim>\<open>groups\<close>, which are parameters here.
\<close>

definition pointToRadian :: "int \<Rightarrow> int \<Rightarrow> jsnum" where
  "pointToRadian total_pts point =
     js_div (js_mul (js_mul Math_PI (Num 2)) (Num (of_int point))) (Num (of_int total_pts))"

definition startOfGroup :: "Group list \<Rightarrow> int \<Rightarrow> nat \<Rightarrow> error + jsnum" where
  "startOfGroup groups total_pts index =
     (case js_at groups (int index) of
        Val g \<Rightarrow> Inr (pointToRadian total_pts (g_start g))
      | _ \<Rightarrow> Inl TypeError)"

definition lenOfGroup :: "Group list \<Rightarrow> int \<Rightarrow> nat \<Rightarrow> error + jsnum" where
  "lenOfGroup groups total_pts index =
     (case js_at groups (int index) of
        Val g \<Rightarrow> Inr (pointToRadian total_pts (g_len g))
      | _ \<Rightarrow> Inl TypeError)"

section \<open>Cards: the photos of one set on their arc\<close>

text \<open>
  What \<^verbatim>\<open>Cards\<close> passes to one \<^verbatim>\<open>Card\<close>: the key, the position and rotation
  triples, the two flags and the photo. \<open>card_angle\<close> is not a prop: it records the local
  \<^verbatim>\<open>angle\<close>, which reaches the card as its key and through its position and rotation.
\<close>

record CardProps =
  card_key :: jsnum
  card_angle :: jsnum
  card_position :: "jsnum \<times> jsnum \<times> jsnum"
  card_rotation :: "jsnum \<times> jsnum \<times> jsnum"
  card_active :: bool
  card_hovered :: bool
  card_photo :: "Photo jsval"

record CardsView =
  category :: string
  text_position :: "jsnum \<times> jsnum \<times> jsnum"
  cards :: "CardProps list"

text \<open>\<^verbatim>\<open>const angle = from + (i / amount) * len\<close>\<close>

definition card_angle_at :: "nat \<Rightarrow> jsnum \<Rightarrow> jsnum \<Rightarrow> nat \<Rightarrow> jsnum" where
  "card_angle_at amount from len i =
     js_add from (js_mul (js_div (Num (of_nat i)) (Num (of_nat amount))) len)"

definition make_card ::
  "Photo list \<Rightarrow> jsnum \<Rightarrow> jsnum \<Rightarrow> jsnum \<Rightarrow> nat option \<Rightarrow> nat \<Rightarrow> CardProps" where
  "make_card photos_arg from len radius hovered i =
     (let amount = length photos_arg;
          angle = card_angle_at amount from len i in
      \<lparr>card_key = angle,
       card_angle = angle,
       card_position = (js_mul (js_sin angle) radius, Num 0, js_mul (js_cos angle) radius),
       card_rotation = (Num 0, js_add (js_div Math_PI (Num 2)) angle, Num 0),
       card_active = (hovered \<noteq> None),
       card_hovered = (hovered = Some i),
       card_photo = js_at photos_arg (int i)\<rparr>)"

text \<open>
  The component \<^verbatim>\<open>Cards\<close>, as a function of its props and of its state \<open>hovered\<close>
  (\<^verbatim>\<open>null\<close> is \<open>None\<close>). \<^verbatim>\<open>Array.from({ length: amount }, (_, i) => ...)\<close> calls the
  function at \<open>0, ..., amount - 1\<close> in this order. The React key that \<^verbatim>\<open>Scene\<close> gives
  each \<^verbatim>\<open>Cards\<close> (\<^verbatim>\<open>photoSet.id\<close>) is not a prop and is not part of the model, nor
  is the body of \<^verbatim>\<open>Card\<close>, which draws the image of its photo.
\<close>

definition Cards ::
  "Photo list \<Rightarrow> string \<Rightarrow> jsnum \<Rightarrow> jsnum \<Rightarrow> jsnum \<Rightarrow> nat option \<Rightarrow> CardsView" where
  "Cards photos_arg category_arg from len radius hovered =
     (let amount = length photos_arg;
          textPosition =
            js_add from
              (js_mul (js_div (js_div (Num (of_nat amount)) (Num 2)) (Num (of_nat amount))) len)
      in
      \<lparr>category = category_arg,
       text_position =
         (js_mul (js_mul (js_sin textPosition) radius) (Num 1.4),
          Num 0.5,
          js_mul (js_mul (js_cos textPosition) radius) (Num 1.4)),
       cards = map (make_card photos_arg from len radius hovered) [0..<amount]\<rparr>)"

section \<open>ActiveCard: the enlarged preview\<close>

record ActiveCardView =
  active_title :: string
  active_fallback_url :: string
  active_url :: string

text \<open>
  \<^verbatim>\<open>return photo && (...)\<close>: nothing is drawn for a falsy \<^verbatim>\<open>photo\<close>. The per-frame
  callback and the layout effect of the component are not part of the model.
\<close>

fun ActiveCard :: "Photo jsval \<Rightarrow> ActiveCardView option" where
  "ActiveCard (Val photo) =
     Some \<lparr>active_title = title photo,
           active_fallback_url = url (small photo),
           active_url = url (medium photo)\<rparr>"
| "ActiveCard _ = None"

section \<open>Scene: state, rendering and the hover callbacks\<close>

text \<open>
  The props and state a render of \<^verbatim>\<open>Scene\<close> and of its \<^verbatim>\<open>Cards\<close> children reads:
  the prop \<^verbatim>\<open>photoSets\<close>, the state \<^verbatim>\<open>hoveredPhoto\<close> of \<^verbatim>\<open>Scene\<close> (initially
  \<^verbatim>\<open>null\<close>) and the state \<^verbatim>\<open>hovered\<close> of each \<^verbatim>\<open>Cards\<close>, by the index of its
  set (initially \<^verbatim>\<open>null\<close>, here \<open>None\<close>).
\<close>

record scene_state =
  photoSets :: "PhotoSet list"
  hoveredPhoto :: "Photo jsval"
  hovered_of :: "nat \<Rightarrow> nat option"

definition initial_state :: "PhotoSet list \<Rightarrow> scene_state" where
  "initial_state sets =
     \<lparr>photoSets = sets, hoveredPhoto = Null, hovered_of = (\<lambda>_. None)\<rparr>"

record SceneView =
  groups_view :: "CardsView list"
  active_view :: "ActiveCardView option"

text \<open>The body of \<^verbatim>\<open>photoSets.map((photoSet, index) => <Cards ... />)\<close>.\<close>

definition render_cards ::
  "Group list \<Rightarrow> int \<Rightarrow> (nat \<Rightarrow> nat option) \<Rightarrow> PhotoSet \<Rightarrow> nat \<Rightarrow> error + CardsView" where
  "render_cards groups total_pts hov photoSet index =
     (case startOfGroup groups total_pts index of
        Inl e \<Rightarrow> Inl e
      | Inr from \<Rightarrow>
          (case lenOfGroup groups total_pts index of
             Inl e \<Rightarrow> Inl e
           | Inr len \<Rightarrow>
               Inr (Cards (photos photoSet) (set_title photoSet) from len (Num 15) (hov index))))"

fun map_cards ::
  "Group list \<Rightarrow> int \<Rightarrow> (nat \<Rightarrow> nat option) \<Rightarrow> nat \<Rightarrow> PhotoSet list \<Rightarrow> error + CardsView list"
where
  "map_cards groups total_pts hov index [] = Inr []"
| "map_cards groups total_pts hov index (photoSet # rest) =
     (case render_cards groups total_pts hov photoSet index of
        Inl e \<Rightarrow> Inl e
      | Inr v \<Rightarrow>
          (case map_cards groups total_pts hov (Suc index) rest of
             Inl e \<Rightarrow> Inl e
           | Inr vs \<Rightarrow> Inr (v # vs)))"

text \<open>\<^verbatim>\<open>{hoveredPhoto ? <ActiveCard photo={hoveredPhoto} /> : null}\<close>\<close>

definition active_preview :: "scene_state \<Rightarrow> ActiveCardView option" where
  "active_preview st =
     (if truthy (hoveredPhoto st) then ActiveCard (hoveredPhoto st) else None)"

text \<open>
  One render of \<^verbatim>\<open>Scene\<close>: the state after the render and what is drawn, or the error
  thrown. The per-frame callback (scroll rotation, camera easing) is not part of the model.
\<close>

definition Scene :: "scene_state \<Rightarrow> error + (scene_state \<times> SceneView)" where
  "Scene st =
     (case compute_groups (photoSets st) of
        Inl e \<Rightarrow> Inl e
      | Inr groups \<Rightarrow>
          (case total_of groups of
             Inl e \<Rightarrow> Inl e
           | Inr total_pts \<Rightarrow>
               (case map_cards groups total_pts (hovered_of st) 0 (photoSets st) of
                  Inl e \<Rightarrow> Inl e
                | Inr views \<Rightarrow>
                    Inr (st,
                         \<lparr>groups_view = views,
                          active_view = active_preview st\<rparr>))))"

text \<open>
  \<^verbatim>\<open>onHoverCard={(index) => setHoveredPhoto(photoSet.photos[index])}\<close>, the callback
  \<^verbatim>\<open>Scene\<close> gives the \<^verbatim>\<open>Cards\<close> of \<open>photoSet\<close>.
\<close>

definition onHoverCard :: "PhotoSet \<Rightarrow> nat option \<Rightarrow> scene_state \<Rightarrow> scene_state" where
  "onHoverCard photoSet index st = st\<lparr>hoveredPhoto := js_index (photos photoSet) index\<rparr>"

text \<open>
  The handlers of card \<open>i\<close> in the \<^verbatim>\<open>Cards\<close> of the set at \<open>g\<close>:
  \<^verbatim>\<open>(e) => (e.stopPropagation(), hover(i), onHoverCard(i))\<close> and
  \<^verbatim>\<open>() => (hover(null), onHoverCard(null))\<close>. Event propagation is not part of the model.
\<close>

definition hover :: "nat \<Rightarrow> nat option \<Rightarrow> scene_state \<Rightarrow> scene_state" where
  "hover g v st = st\<lparr>hovered_of := (hovered_of st)(g := v)\<rparr>"

definition onPointerOver :: "nat \<Rightarrow> PhotoSet \<Rightarrow> nat \<Rightarrow> scene_state \<Rightarrow> scene_state" where
  "onPointerOver g photoSet i st = onHoverCard photoSet (Some i) (hover g (Some i) st)"

definition onPointerOut :: "nat \<Rightarrow> PhotoSet \<Rightarrow> scene_state \<Rightarrow> scene_state" where
  "onPointerOut g photoSet st = onHoverCard photoSet None (hover g None st)"

section \<open>Page: fetching the photos\<close>

text \<open>
  \<^verbatim>\<open>getAllPhotos\<close> (\<^verbatim>\<open>@/clients/flickr\<close>) is not among the sources. It is a parameter:
  \<open>fetch n\<close> is how the call number \<open>n\<close> settles, \<open>Inl\<close> a rejection with its error and
  \<open>Inr\<close> the photos. The number of calls made so far is the state.
\<close>

record 'p PageView =
  heading :: string
  subheading :: string
  gallery_photos :: 'p

definition getAllPhotos :: "(nat \<Rightarrow> 'e + 'p) \<Rightarrow> nat \<Rightarrow> ('e + 'p) \<times> nat" where
  "getAllPhotos fetch calls = (fetch calls, Suc calls)"

text \<open>
  \<^verbatim>\<open>const photos = await getAllPhotos()\<close>: a rejection is thrown out of the async
  function, which has no \<^verbatim>\<open>try\<close>; otherwise the markup is returned.
\<close>

definition Page :: "(nat \<Rightarrow> 'e + 'p) \<Rightarrow> nat \<Rightarrow> ('e + 'p PageView) \<times> nat" where
  "Page fetch calls =
     (case getAllPhotos fetch calls of
        (Inl e, calls') \<Rightarrow> (Inl e, calls')
      | (Inr photos_arg, calls') \<Rightarrow>
          (Inr \<lparr>heading = ''Lubbock'', subheading = ''Bordeaux'', gallery_photos = photos_arg\<rparr>,
           calls'))"

section \<open>The layout and the hover callbacks over an explicit store\<close>

text \<open>
  The functions above take the photo sets as values. To state what the computations write,
  the same steps are given once more over a store of objects. An address is an index into
  the store; \<open>alloc\<close> puts a new object behind the last one, \<open>assign\<close> replaces the object
  at an address, \<open>load\<close> reads. The store holds the \<^verbatim>\<open>photoSets\<close> array, the
  \<^verbatim>\<open>PhotoSet\<close> objects with the address of their \<^verbatim>\<open>photos\<close> array, the
  \<^verbatim>\<open>Photo\<close> objects, the arrays and the \<^verbatim>\<open>{ start, len, end }\<close> objects that the
  reduction builds, and the two cells of state: \<^verbatim>\<open>hoveredPhoto\<close> of \<^verbatim>\<open>Scene\<close> (a
  reference to a photo, \<^verbatim>\<open>null\<close> or \<^verbatim>\<open>undefined\<close>) and \<^verbatim>\<open>hovered\<close> of a
  \<^verbatim>\<open>Cards\<close>. A \<^verbatim>\<open>Photo\<close> object is a leaf: its image variants are part of its value.

  Each step follows the source: \<^verbatim>\<open>set.photos.length\<close> loads the set and then its
  array; \<^verbatim>\<open>groups[index - 1].start\<close> loads the accumulator and then the group;
  \<^verbatim>\<open>[...groups, { start, len, end }]\<close> allocates the new object and a new array with the
  elements of the accumulator and the new address; \<^verbatim>\<open>reduce\<close> reads
  \<^verbatim>\<open>photoSets[k]\<close> from the store at every turn, up to the length read at the start,
  and skips an index that is not there; \<^verbatim>\<open>photoSets.map\<close> runs on the store that the
  reduction leaves, and since its callback hands nothing back through the store it reads
  the array once; \<^verbatim>\<open>setHoveredPhoto\<close> and \<^verbatim>\<open>hover\<close> assign to their cell. The
  angles of the cards are returned as values. A load that finds no object, or an object of
  another kind than the type of the expression promises, is an error.
\<close>

type_synonym addr = nat

datatype obj =
    ArrayObj "addr list"
  | PhotoSetObj string string addr
  | PhotoObj Photo
  | GroupObj int int int
  | HoveredPhotoCell "addr jsval"
  | HoveredCell "nat option"

type_synonym store = "obj list"

definition load :: "store \<Rightarrow> addr \<Rightarrow> obj option" where
  "load h a = (if a < length h then Some (h ! a) else None)"

definition alloc :: "store \<Rightarrow> obj \<Rightarrow> addr \<times> store" where
  "alloc h x = (length h, h @ [x])"

definition assign :: "store \<Rightarrow> addr \<Rightarrow> obj \<Rightarrow> store" where
  "assign h a x = h[a := x]"

definition load_array :: "store \<Rightarrow> addr \<Rightarrow> error + addr list" where
  "load_array h a = (case load h a of Some (ArrayObj xs) \<Rightarrow> Inr xs | _ \<Rightarrow> Inl TypeError)"

definition load_photos :: "store \<Rightarrow> addr \<Rightarrow> error + addr list" where
  "load_photos h s =
     (case load h s of
        Some (PhotoSetObj _ _ photos_a) \<Rightarrow> load_array h photos_a
      | _ \<Rightarrow> Inl TypeError)"

definition load_start :: "store \<Rightarrow> addr \<Rightarrow> error + int" where
  "load_start h g = (case load h g of Some (GroupObj start _ _) \<Rightarrow> Inr start | _ \<Rightarrow> Inl TypeError)"

definition load_len :: "store \<Rightarrow> addr \<Rightarrow> error + int" where
  "load_len h g = (case load h g of Some (GroupObj _ len _) \<Rightarrow> Inr len | _ \<Rightarrow> Inl TypeError)"

definition load_end :: "store \<Rightarrow> addr \<Rightarrow> error + int" where
  "load_end h g = (case load h g of Some (GroupObj _ _ end) \<Rightarrow> Inr end | _ \<Rightarrow> Inl TypeError)"

definition group_start_in_store :: "store \<Rightarrow> addr \<Rightarrow> int \<Rightarrow> nat \<Rightarrow> error + int" where
  "group_start_in_store h groups len index =
     (if index = 0 then Inr 0
      else
        (case load_array h groups of
           Inl e \<Rightarrow> Inl e
         | Inr gs \<Rightarrow>
             (case js_at gs (int index - 1) of
                Val prev \<Rightarrow>
                  (case load_start h prev of
                     Inl e \<Rightarrow> Inl e
                   | Inr start \<Rightarrow> Inr (start + len + gapBetweenGroups))
              | _ \<Rightarrow> Inl TypeError)))"

definition group_step_in_store :: "store \<Rightarrow> addr \<Rightarrow> addr \<Rightarrow> nat \<Rightarrow> error + addr \<times> store" where
  "group_step_in_store h groups s index =
     (case load_photos h s of
        Inl e \<Rightarrow> Inl e
      | Inr ps \<Rightarrow>
          (let len = int (length ps) - 1 in
           case group_start_in_store h groups len index of
             Inl e \<Rightarrow> Inl e
           | Inr start \<Rightarrow>
               (let end = start + len in
                case load_array h groups of
                  Inl e \<Rightarrow> Inl e
                | Inr gs \<Rightarrow>
                    (let (g, h1) = alloc h (GroupObj start len end) in
                     Inr (alloc h1 (ArrayObj (gs @ [g])))))))"

function reduce_in_store ::
  "store \<Rightarrow> addr \<Rightarrow> nat \<Rightarrow> addr \<Rightarrow> nat \<Rightarrow> error + addr \<times> store" where
  "reduce_in_store h sets n groups k =
     (if k < n then
        (case load_array h sets of
           Inl e \<Rightarrow> Inl e
         | Inr ss \<Rightarrow>
             (case js_at ss (int k) of
                Val s \<Rightarrow>
                  (case group_step_in_store h groups s k of
                     Inl e \<Rightarrow> Inl e
                   | Inr (groups', h') \<Rightarrow> reduce_in_store h' sets n groups' (Suc k))
              | _ \<Rightarrow> reduce_in_store h sets n groups (Suc k)))
      else Inr (groups, h))"
  by pat_completeness auto
termination
  by (relation "measure (\<lambda>(h, sets, n, groups, k). n - k)") auto

declare reduce_in_store.simps [simp del]

definition compute_groups_in_store :: "store \<Rightarrow> addr \<Rightarrow> error + addr \<times> store" where
  "compute_groups_in_store h sets =
     (let (groups0, h0) = alloc h (ArrayObj []) in
      case load_array h0 sets of
        Inl e \<Rightarrow> Inl e
      | Inr ss \<Rightarrow> reduce_in_store h0 sets (length ss) groups0 0)"

definition total_in_store :: "store \<Rightarrow> addr \<Rightarrow> error + int" where
  "total_in_store h groups =
     (case load_array h groups of
        Inl e \<Rightarrow> Inl e
      | Inr gs \<Rightarrow>
          (case js_at gs (int (length gs) - 1) of
             Val g \<Rightarrow> load_end h g
           | _ \<Rightarrow> Inl TypeError))"

definition startOfGroup_in_store :: "store \<Rightarrow> addr \<Rightarrow> int \<Rightarrow> nat \<Rightarrow> error + jsnum" where
  "startOfGroup_in_store h groups total_pts index =
     (case load_array h groups of
        Inl e \<Rightarrow> Inl e
      | Inr gs \<Rightarrow>
          (case js_at gs (int index) of
             Val g \<Rightarrow>
               (case load_start h g of
                  Inl e \<Rightarrow> Inl e
                | Inr start \<Rightarrow> Inr (pointToRadian total_pts start))
           | _ \<Rightarrow> Inl TypeError))"

definition lenOfGroup_in_store :: "store \<Rightarrow> addr \<Rightarrow> int \<Rightarrow> nat \<Rightarrow> error + jsnum" where
  "lenOfGroup_in_store h groups total_pts index =
     (case load_array h groups of
        Inl e \<Rightarrow> Inl e
      | Inr gs \<Rightarrow>
          (case js_at gs (int index) of
             Val g \<Rightarrow>
               (case load_len h g of
                  Inl e \<Rightarrow> Inl e
                | Inr len \<Rightarrow> Inr (pointToRadian total_pts len))
           | _ \<Rightarrow> Inl TypeError))"

definition card_angles_in_store :: "store \<Rightarrow> addr \<Rightarrow> jsnum \<Rightarrow> jsnum \<Rightarrow> error + jsnum list" where
  "card_angles_in_store h photos_a from len =
     (case load_array h photos_a of
        Inl e \<Rightarrow> Inl e
      | Inr ps \<Rightarrow>
          (let amount = length ps in Inr (map (card_angle_at amount from len) [0..<amount])))"

definition set_angles_in_store ::
  "store \<Rightarrow> addr \<Rightarrow> int \<Rightarrow> addr \<Rightarrow> nat \<Rightarrow> error + jsnum list" where
  "set_angles_in_store h groups total_pts s index =
     (case startOfGroup_in_store h groups total_pts index of
        Inl e \<Rightarrow> Inl e
      | Inr from \<Rightarrow>
          (case lenOfGroup_in_store h groups total_pts index of
             Inl e \<Rightarrow> Inl e
           | Inr len \<Rightarrow>
               (case load h s of
                  Some (PhotoSetObj _ _ photos_a) \<Rightarrow> card_angles_in_store h photos_a from len
                | _ \<Rightarrow> Inl TypeError)))"

fun map_angles_in_store ::
  "store \<Rightarrow> addr \<Rightarrow> int \<Rightarrow> nat \<Rightarrow> addr list \<Rightarrow> error + jsnum list list" where
  "map_angles_in_store h groups total_pts index [] = Inr []"
| "map_angles_in_store h groups total_pts index (s # rest) =
     (case set_angles_in_store h groups total_pts s index of
        Inl e \<Rightarrow> Inl e
      | Inr a \<Rightarrow>
          (case map_angles_in_store h groups total_pts (Suc index) rest of
             Inl e \<Rightarrow> Inl e
           | Inr as \<Rightarrow> Inr (a # as)))"

definition layout_in_store :: "store \<Rightarrow> addr \<Rightarrow> error + store \<times> jsnum list list" where
  "layout_in_store h sets =
     (case compute_groups_in_store h sets of
        Inl e \<Rightarrow> Inl e
      | Inr (groups, h1) \<Rightarrow>
          (case total_in_store h1 groups of
             Inl e \<Rightarrow> Inl e
           | Inr total_pts \<Rightarrow>
               (case load_array h1 sets of
                  Inl e \<Rightarrow> Inl e
                | Inr ss \<Rightarrow>
                    (case map_angles_in_store h1 groups total_pts 0 ss of
                       Inl e \<Rightarrow> Inl e
                     | Inr angles \<Rightarrow> Inr (h1, angles)))))"

definition onHoverCard_in_store ::
  "addr \<Rightarrow> addr \<Rightarrow> nat option \<Rightarrow> store \<Rightarrow> error + store" where
  "onHoverCard_in_store cell s index h =
     (case load_photos h s of
        Inl e \<Rightarrow> Inl e
      | Inr ps \<Rightarrow> Inr (assign h cell (HoveredPhotoCell (js_index ps index))))"

definition hover_in_store :: "addr \<Rightarrow> nat option \<Rightarrow> store \<Rightarrow> store" where
  "hover_in_store hcell v h = assign h hcell (HoveredCell v)"

definition onPointerOver_in_store ::
  "addr \<Rightarrow> addr \<Rightarrow> addr \<Rightarrow> nat \<Rightarrow> store \<Rightarrow> error + store" where
  "onPointerOver_in_store hcell cell s i h =
     onHoverCard_in_store cell s (Some i) (hover_in_store hcell (Some i) h)"

definition onPointerOut_in_store :: "addr \<Rightarrow> addr \<Rightarrow> addr \<Rightarrow> store \<Rightarrow> error + store" where
  "onPointerOut_in_store hcell cell s h =
     onHoverCard_in_store cell s None (hover_in_store hcell None h)"

text \<open>Reading the photo sets back from the store.\<close>

definition photo_at :: "store \<Rightarrow> addr \<Rightarrow> Photo option" where
  "photo_at h a = (case load h a of Some (PhotoObj p) \<Rightarrow> Some p | _ \<Rightarrow> None)"

definition photos_at :: "store \<Rightarrow> addr \<Rightarrow> Photo list option" where
  "photos_at h a =
     (case load_array h a of Inr as \<Rightarrow> those (map (photo_at h) as) | Inl _ \<Rightarrow> None)"

definition photoSet_at :: "store \<Rightarrow> addr \<Rightarrow> PhotoSet option" where
  "photoSet_at h a =
     (case load h a of
        Some (PhotoSetObj i t photos_a) \<Rightarrow>
          (case photos_at h photos_a of
             Some ps \<Rightarrow> Some \<lparr>set_id = i, set_title = t, photos = ps\<rparr>
           | None \<Rightarrow> None)
      | _ \<Rightarrow> None)"

definition photoSets_at :: "store \<Rightarrow> addr \<Rightarrow> PhotoSet list option" where
  "photoSets_at h a =
     (case load_array h a of Inr as \<Rightarrow> those (map (photoSet_at h) as) | Inl _ \<Rightarrow> None)"

fun is_cell :: "obj \<Rightarrow> bool" where
  "is_cell (HoveredPhotoCell _) = True"
| "is_cell (HoveredCell _) = True"
| "is_cell _ = False"

definition group_at :: "store \<Rightarrow> addr \<Rightarrow> Group option" where
  "group_at h a =
     (case load h a of
        Some (GroupObj s l e) \<Rightarrow> Some \<lparr>g_start = s, g_len = l, g_end = e\<rparr>
      | _ \<Rightarrow> None)"

definition groups_at :: "store \<Rightarrow> addr \<Rightarrow> Group list option" where
  "groups_at h a =
     (case load_array h a of Inr as \<Rightarrow> those (map (group_at h) as) | Inl _ \<Rightarrow> None)"

text \<open>
  Every list of photo sets can be held in a store: its objects are laid out one after the
  other, the photos of a set before the array of the set and the set itself, and the array
  of the sets last.
\<close>

fun store_photos :: "store \<Rightarrow> Photo list \<Rightarrow> addr list \<times> store" where
  "store_photos h [] = ([], h)"
| "store_photos h (p # ps) =
     (let (a, h1) = alloc h (PhotoObj p);
          (as, h2) = store_photos h1 ps
      in (a # as, h2))"

definition store_photoSet :: "store \<Rightarrow> PhotoSet \<Rightarrow> addr \<times> store" where
  "store_photoSet h s =
     (let (as, h1) = store_photos h (photos s);
          (photos_a, h2) = alloc h1 (ArrayObj as)
      in alloc h2 (PhotoSetObj (set_id s) (set_title s) photos_a))"

fun store_photoSet_list :: "store \<Rightarrow> PhotoSet list \<Rightarrow> addr list \<times> store" where
  "store_photoSet_list h [] = ([], h)"
| "store_photoSet_list h (s # sets) =
     (let (a, h1) = store_photoSet h s;
          (as, h2) = store_photoSet_list h1 sets
      in (a # as, h2))"

definition store_photoSets :: "store \<Rightarrow> PhotoSet list \<Rightarrow> addr \<times> store" where
  "store_photoSets h sets =
     (let (as, h1) = store_photoSet_list h sets in alloc h1 (ArrayObj as))"

section \<open>Example inputs\<close>

definition example_photo :: "string \<Rightarrow> Photo" where
  "example_photo t =
     \<lparr>title = t,
      small = \<lparr>url = ''small.jpg'', width = 240, height = 160\<rparr>,
      medium = \<lparr>url = ''medium.jpg'', width = 640, height = 427\<rparr>\<rparr>"

definition example_set :: "string \<Rightarrow> Photo list \<Rightarrow> PhotoSet" where
  "example_set name ps = \<lparr>set_id = name, set_title = name, photos = ps\<rparr>"

text \<open>
  A store with one set of two photos: the photos at 0 and 1, their array at 2, the set at 3,
  the \<^verbatim>\<open>photoSets\<close> array at 4, the cell of \<^verbatim>\<open>hovered\<close> at 5 and the cell of
  \<^verbatim>\<open>hoveredPhoto\<close> at 6.
\<close>

definition example_store :: store where
  "example_store =
     [PhotoObj (example_photo ''p''),
      PhotoObj (example_photo ''q''),
      ArrayObj [0, 1],
      PhotoSetObj ''a'' ''a'' 2,
      ArrayObj [3],
      HoveredCell None,
      HoveredPhotoCell Null]"

section \<open>The reduction over the photo sets never fails\<close>

lemma group_step_ok:
  "length groups = index \<Longrightarrow> \<exists>g. group_step groups s index = Inr (groups @ [g])"
  by (cases index) (auto simp: group_step_def js_at_def Let_def)

lemma reduce_groups_ok:
  "length groups = index \<Longrightarrow>
   \<exists>gs. reduce_groups groups index sets = Inr (groups @ gs) \<and> length gs = length sets"
proof (induction sets arbitrary: groups index)
  case Nil
  then show ?case by simp
next
  case (Cons s rest)
  from group_step_ok [OF Cons.prems, of s]
  obtain g where g: "group_step groups s index = Inr (groups @ [g])" by blast
  have "length (groups @ [g]) = Suc index" using Cons.prems by simp
  from Cons.IH [OF this]
  obtain gs where "reduce_groups (groups @ [g]) (Suc index) rest = Inr ((groups @ [g]) @ gs)"
    and "length gs = length rest" by blast
  then show ?case using g by (intro exI [of _ "g # gs"]) simp
qed

lemma compute_groups_ok:
  "\<exists>gs. compute_groups sets = Inr gs \<and> length gs = length sets"
  using reduce_groups_ok [of "[]" 0 sets] by (simp add: compute_groups_def)

lemma total_of_nonempty: "gs \<noteq> [] \<Longrightarrow> total_of gs = Inr (g_end (last gs))"
  by (cases gs rule: rev_cases) (auto simp: total_of_def js_at_def nth_append)

lemma total_of_empty: "total_of [] = Inl TypeError"
  by (simp add: total_of_def js_at_def)

lemma render_cards_ok:
  "index < length groups \<Longrightarrow>
   render_cards groups t hov ps index =
     Inr (Cards (photos ps) (set_title ps)
            (pointToRadian t (g_start (groups ! index)))
            (pointToRadian t (g_len (groups ! index))) (Num 15) (hov index))"
  by (simp add: render_cards_def startOfGroup_def lenOfGroup_def js_at_def)

lemma map_cards_ok:
  "index + length sets \<le> length groups \<Longrightarrow>
   \<exists>vs. map_cards groups t hov index sets = Inr vs \<and> length vs = length sets \<and>
     (\<forall>k < length sets. vs ! k =
        Cards (photos (sets ! k)) (set_title (sets ! k))
            (pointToRadian t (g_start (groups ! (index + k))))
            (pointToRadian t (g_len (groups ! (index + k)))) (Num 15) (hov (index + k)))"
proof (induction sets arbitrary: index)
  case Nil
  then show ?case by simp
next
  case (Cons s rest)
  have "Suc index + length rest \<le> length groups" using Cons.prems by simp
  from Cons.IH [OF this] obtain vs where
    vs: "map_cards groups t hov (Suc index) rest = Inr vs" "length vs = length rest"
      "\<forall>k < length rest. vs ! k =
        Cards (photos (rest ! k)) (set_title (rest ! k))
            (pointToRadian t (g_start (groups ! (Suc index + k))))
            (pointToRadian t (g_len (groups ! (Suc index + k)))) (Num 15) (hov (Suc index + k))"
    by blast
  have "index < length groups" using Cons.prems by simp
  note r = render_cards_ok [OF this, of t hov s]
  show ?case
    using vs r by (auto simp: nth_Cons split: nat.splits)
qed

lemma Scene_empty: "photoSets st = [] \<Longrightarrow> Scene st = Inl TypeError"
  by (simp add: Scene_def compute_groups_def total_of_empty)

lemma Scene_nonempty:
  assumes "photoSets st \<noteq> []"
  shows "\<exists>v. Scene st = Inr (st, v)"
proof -
  obtain gs where gs: "compute_groups (photoSets st) = Inr gs" "length gs = length (photoSets st)"
    using compute_groups_ok by blast
  then have "gs \<noteq> []" using assms by auto
  then have t: "total_of gs = Inr (g_end (last gs))" by (rule total_of_nonempty)
  have "0 + length (photoSets st) \<le> length gs" using gs by simp
  from map_cards_ok [OF this, of "g_end (last gs)" "hovered_of st"]
  obtain vs where "map_cards gs (g_end (last gs)) (hovered_of st) 0 (photoSets st) = Inr vs"
    by blast
  then show ?thesis using gs t by (simp add: Scene_def)
qed

section \<open>What the reduction computes\<close>

lemma reduce_groups_snoc:
  "reduce_groups groups index (sets @ [s]) =
     (case reduce_groups groups index sets of
        Inl e \<Rightarrow> Inl e
      | Inr gs \<Rightarrow> group_step gs s (index + length sets))"
  by (induction sets arbitrary: groups index) (auto split: sum.splits)

lemma compute_groups_snoc:
  "compute_groups (sets @ [s]) =
     (case compute_groups sets of
        Inl e \<Rightarrow> Inl e
      | Inr gs \<Rightarrow> group_step gs s (length sets))"
  by (simp add: compute_groups_def reduce_groups_snoc split: sum.splits)

lemma nat_int_pred: "nat (int n - 1) = n - 1"
  by arith

lemma groups_recurrence:
  "compute_groups sets = Inr gs \<Longrightarrow> i < length gs \<Longrightarrow>
     g_len (gs ! i) = int (length (photos (sets ! i))) - 1 \<and>
     g_end (gs ! i) = g_start (gs ! i) + g_len (gs ! i) \<and>
     g_start (gs ! i) =
       (if i = 0 then 0 else g_start (gs ! (i - 1)) + g_len (gs ! i) + gapBetweenGroups)"
proof (induction sets arbitrary: gs i rule: rev_induct)
  case Nil
  then show ?case by (simp add: compute_groups_def)
next
  case (snoc s sets)
  obtain gs0 where gs0: "compute_groups sets = Inr gs0" "length gs0 = length sets"
    using compute_groups_ok by blast
  from group_step_ok [OF gs0(2), of s]
  obtain g where g: "group_step gs0 s (length sets) = Inr (gs0 @ [g])" by blast
  have gs: "gs = gs0 @ [g]"
    using snoc.prems(1) gs0 g by (simp add: compute_groups_snoc)
  show ?case
  proof (cases "i < length sets")
    case True
    then have "i < length gs0" using gs0 by simp
    from snoc.IH [OF gs0(1) this] show ?thesis
      using True gs0 gs by (auto simp: nth_append)
  next
    case False
    then have i: "i = length sets" using snoc.prems(2) gs gs0 by simp
    show ?thesis
      using g gs gs0 i
      by (auto simp: group_step_def js_at_def Let_def nth_append nat_int_pred split: if_splits)
  qed
qed

section \<open>The cards of one set\<close>




section \<open>The render of the scene\<close>

lemma Scene_result:
  "Scene st = Inr (st', v) \<Longrightarrow> st' = st \<and> active_view v = active_preview st"
  by (auto simp: Scene_def split: sum.splits)

lemma Scene_views:
  assumes "Scene st = Inr (st', v)"
  shows "\<exists>gs t. compute_groups (photoSets st) = Inr gs \<and> total_of gs = Inr t \<and>
           map_cards gs t (hovered_of st) 0 (photoSets st) = Inr (groups_view v)"
  using assms by (auto simp: Scene_def split: sum.splits)

lemma scene_draws_each_set:
  assumes "Scene st = Inr (st', v)" and "k < length (photoSets st)"
  shows "length (groups_view v) = length (photoSets st) \<and>
         (\<exists>from len. groups_view v ! k =
            Cards (photos (photoSets st ! k)) (set_title (photoSets st ! k)) from len (Num 15)
              (hovered_of st k))"
proof -
  from Scene_views [OF assms(1)] obtain gs t where
    gs: "compute_groups (photoSets st) = Inr gs" and
    m: "map_cards gs t (hovered_of st) 0 (photoSets st) = Inr (groups_view v)"
    by blast
  from compute_groups_ok [of "photoSets st"] gs
  have "length gs = length (photoSets st)" by simp
  then have "0 + length (photoSets st) \<le> length gs" by simp
  from map_cards_ok [OF this, of t "hovered_of st"] m
  have "length (groups_view v) = length (photoSets st)" and
    "\<forall>k < length (photoSets st). groups_view v ! k =
        Cards (photos (photoSets st ! k)) (set_title (photoSets st ! k))
            (pointToRadian t (g_start (gs ! (0 + k))))
            (pointToRadian t (g_len (gs ! (0 + k)))) (Num 15) (hovered_of st (0 + k))"
    by auto
  then show ?thesis using assms(2) by auto
qed

section \<open>A single set of a single photo\<close>

lemma single_photo_groups:
  "length (photos s) = 1 \<Longrightarrow>
   compute_groups [s] = Inr [\<lparr>g_start = 0, g_len = 0, g_end = 0\<rparr>]"
  by (simp add: compute_groups_def group_step_def)

lemma pointToRadian_zero_total: "pointToRadian 0 0 = NaN"
  by (simp add: pointToRadian_def Math_PI_def)

lemma pointToRadian_finite:
  "t \<noteq> 0 \<Longrightarrow> pointToRadian t point = Num (pi * 2 * real_of_int point / real_of_int t)"
  by (simp add: pointToRadian_def Math_PI_def)

lemma single_photo_scene:
  assumes "photoSets st = [s]" and "length (photos s) = 1"
  shows "Scene st =
     Inr (st, \<lparr>groups_view = [Cards (photos s) (set_title s) NaN NaN (Num 15) (hovered_of st 0)],
               active_view = active_preview st\<rparr>)"
  using assms
  by (simp add: Scene_def single_photo_groups total_of_def js_at_def render_cards_def
      startOfGroup_def lenOfGroup_def pointToRadian_zero_total)

lemma single_photo_cards:
  assumes "length ps = 1"
  shows "\<exists>c. cards (Cards ps cat NaN NaN radius h) = [c] \<and> card_angle c = NaN"
proof -
  from assms obtain p where "ps = [p]" by (cases ps) auto
  then show ?thesis by (simp add: Cards_def make_card_def card_angle_at_def)
qed

section \<open>The store: what is written, and agreement with the functions on values\<close>

lemma those_map_eq_Some:
  "those (map f xs) = Some ys \<longleftrightarrow> list_all2 (\<lambda>x y. f x = Some y) xs ys"
proof (induction xs arbitrary: ys)
  case Nil
  then show ?case by auto
next
  case (Cons x xs)
  show ?case
  proof (cases "f x")
    case None
    then show ?thesis by (auto simp: list_all2_Cons1)
  next
    case (Some y)
    then show ?thesis using Cons.IH by (auto simp: list_all2_Cons1)
  qed
qed

lemma load_append: "load h a = Some x \<Longrightarrow> load (h @ ext) a = Some x"
  by (auto simp: load_def nth_append split: if_splits)

lemma load_array_append: "load_array h a = Inr xs \<Longrightarrow> load_array (h @ ext) a = Inr xs"
  by (auto simp: load_array_def load_append split: option.splits obj.splits)

lemma photo_at_append: "photo_at h a = Some p \<Longrightarrow> photo_at (h @ ext) a = Some p"
  by (auto simp: photo_at_def load_append split: option.splits obj.splits)

lemma photos_at_append: "photos_at h a = Some ps \<Longrightarrow> photos_at (h @ ext) a = Some ps"
  by (auto simp: photos_at_def those_map_eq_Some load_array_append photo_at_append
      split: sum.splits elim: list_all2_mono)

lemma photoSet_at_append: "photoSet_at h a = Some s \<Longrightarrow> photoSet_at (h @ ext) a = Some s"
  by (auto simp: photoSet_at_def load_append photos_at_append split: option.splits obj.splits)

lemma photoSets_at_append:
  "photoSets_at h a = Some sets \<Longrightarrow> photoSets_at (h @ ext) a = Some sets"
  by (auto simp: photoSets_at_def those_map_eq_Some load_array_append photoSet_at_append
      split: sum.splits elim: list_all2_mono)

lemma group_step_in_store_extends:
  "group_step_in_store h groups s k = Inr (groups', h') \<Longrightarrow> \<exists>ext. h' = h @ ext"
  by (auto simp: group_step_in_store_def alloc_def Let_def split: sum.splits)

lemma reduce_in_store_extends:
  "reduce_in_store h sets n groups k = Inr (groups', h') \<Longrightarrow> \<exists>ext. h' = h @ ext"
proof (induction h sets n groups k rule: reduce_in_store.induct)
  case (1 h sets n groups k)
  note unfold = reduce_in_store.simps [of h sets n groups k]
  show ?case
  proof (cases "k < n")
    case False
    then show ?thesis using "1.prems" unfold by simp
  next
    case True
    then obtain ss where ss: "load_array h sets = Inr ss"
      using "1.prems" unfold by (auto split: sum.splits)
    show ?thesis
    proof (cases "js_at ss (int k)")
      case (Val s)
      then obtain g1 h1 where st: "group_step_in_store h groups s k = Inr (g1, h1)"
        and r: "reduce_in_store h1 sets n g1 (Suc k) = Inr (groups', h')"
        using "1.prems" unfold True ss by (auto split: sum.splits)
      from group_step_in_store_extends [OF st] obtain e1 where e1: "h1 = h @ e1" by blast
      from "1.IH"(3) [OF True ss Val st refl r] obtain e2 where "h' = h1 @ e2" by blast
      then show ?thesis using e1 by simp
    next
      case Undefined
      then have r: "reduce_in_store h sets n groups (Suc k) = Inr (groups', h')"
        using "1.prems" unfold True ss by simp
      from "1.IH"(1) [OF True ss Undefined r] show ?thesis .
    next
      case Null
      then have r: "reduce_in_store h sets n groups (Suc k) = Inr (groups', h')"
        using "1.prems" unfold True ss by simp
      from "1.IH"(2) [OF True ss Null r] show ?thesis .
    qed
  qed
qed

lemma compute_groups_in_store_extends:
  "compute_groups_in_store h sets = Inr (groups, h') \<Longrightarrow> \<exists>ext. h' = h @ ext"
  by (auto simp: compute_groups_in_store_def alloc_def split: sum.splits
      dest!: reduce_in_store_extends)

lemma layout_in_store_extends:
  "layout_in_store h sets = Inr (h', angles) \<Longrightarrow> \<exists>ext. h' = h @ ext"
  by (auto simp: layout_in_store_def split: sum.splits dest: compute_groups_in_store_extends)


lemma load_assign_cell:
  assumes "load h c = Some x" and "is_cell x" and "is_cell y"
  shows "load (assign h c y) a = (if a = c then Some y else load h a)"
  using assms by (auto simp: load_def assign_def split: if_splits)

lemma load_array_assign_cell:
  assumes "load h c = Some x" and "is_cell x" and "is_cell y"
  shows "load_array (assign h c y) a = load_array h a"
proof -
  note l = load_assign_cell [OF assms, of a]
  show ?thesis
    using assms l by (cases x; cases y) (auto simp: load_array_def)
qed

lemma photo_at_assign_cell:
  assumes "load h c = Some x" and "is_cell x" and "is_cell y"
  shows "photo_at (assign h c y) a = photo_at h a"
proof -
  note l = load_assign_cell [OF assms, of a]
  show ?thesis
    using assms l by (cases x; cases y) (auto simp: photo_at_def)
qed

lemma photos_at_assign_cell:
  assumes "load h c = Some x" and "is_cell x" and "is_cell y"
  shows "photos_at (assign h c y) a = photos_at h a"
proof -
  have "photo_at (assign h c y) = photo_at h"
    using photo_at_assign_cell [OF assms] by (rule ext)
  then show ?thesis
    by (simp add: photos_at_def load_array_assign_cell [OF assms] split: sum.splits)
qed

lemma photoSet_at_cell: "load h c = Some x \<Longrightarrow> is_cell x \<Longrightarrow> photoSet_at h c = None"
  by (cases x) (simp_all add: photoSet_at_def)

lemma photoSet_at_assign_cell:
  assumes "load h c = Some x" and "is_cell x" and "is_cell y"
  shows "photoSet_at (assign h c y) a = photoSet_at h a"
proof (cases "a = c")
  case True
  have "load (assign h c y) c = Some y" by (simp add: load_assign_cell [OF assms])
  then have "photoSet_at (assign h c y) c = None"
    using assms(3) by (rule photoSet_at_cell)
  moreover have "photoSet_at h c = None"
    using assms(1,2) by (rule photoSet_at_cell)
  ultimately show ?thesis using True by simp
next
  case False
  then have "load (assign h c y) a = load h a" by (simp add: load_assign_cell [OF assms])
  then show ?thesis
    by (simp add: photoSet_at_def photos_at_assign_cell [OF assms]
        split: option.splits obj.splits)
qed

lemma photoSets_at_assign_cell:
  assumes "load h c = Some x" and "is_cell x" and "is_cell y"
  shows "photoSets_at (assign h c y) a = photoSets_at h a"
proof -
  have "photoSet_at (assign h c y) = photoSet_at h"
    using photoSet_at_assign_cell [OF assms] by (rule ext)
  then show ?thesis
    by (simp add: photoSets_at_def load_array_assign_cell [OF assms] split: sum.splits)
qed

lemma load_cell_after_assign_cell:
  assumes "load h c = Some x" and "is_cell x" and "is_cell y"
    and "load h d = Some z" and "is_cell z"
  shows "\<exists>w. load (assign h c y) d = Some w \<and> is_cell w"
  using assms by (simp add: load_assign_cell [OF assms(1-3)])

lemma hover_handlers_keep_photoSets:
  assumes hc: "load h hcell = Some x" "is_cell x"
    and pc: "load h cell = Some z" "is_cell z"
    and r: "onHoverCard_in_store cell s index (hover_in_store hcell v h) = Inr h'"
  shows "photoSets_at h' a = photoSets_at h a"
proof -
  let ?h1 = "hover_in_store hcell v h"
  have c1: "is_cell (HoveredCell v)" by simp
  have h1: "photoSets_at ?h1 a = photoSets_at h a"
    unfolding hover_in_store_def by (rule photoSets_at_assign_cell [OF hc c1])
  obtain w where w: "load ?h1 cell = Some w" "is_cell w"
    unfolding hover_in_store_def
    using load_cell_after_assign_cell [OF hc c1 pc] by blast
  from r obtain ps where "h' = assign ?h1 cell (HoveredPhotoCell (js_index ps index))"
    by (auto simp: onHoverCard_in_store_def split: sum.splits)
  then have "photoSets_at h' a = photoSets_at ?h1 a"
    using photoSets_at_assign_cell [OF w, of "HoveredPhotoCell (js_index ps index)" a] by simp
  then show ?thesis using h1 by simp
qed


lemma group_at_append: "group_at h a = Some g \<Longrightarrow> group_at (h @ ext) a = Some g"
  by (auto simp: group_at_def load_append split: option.splits obj.splits)

lemma photoSet_at_SomeD:
  assumes "photoSet_at h s = Some ps"
  shows "\<exists>i t pa as. load h s = Some (PhotoSetObj i t pa) \<and> load_array h pa = Inr as \<and>
           length as = length (photos ps) \<and> set_title ps = t"
  using assms
  by (auto simp: photoSet_at_def photos_at_def those_map_eq_Some
      split: option.splits obj.splits sum.splits dest: list_all2_lengthD)

lemma groups_at_eq_Some:
  "groups_at h g = Some gs \<longleftrightarrow>
     (\<exists>gas. load_array h g = Inr gas \<and> list_all2 (\<lambda>a y. group_at h a = Some y) gas gs)"
  by (auto simp: groups_at_def those_map_eq_Some split: sum.splits)

lemma group_at_loads:
  assumes "group_at h a = Some y"
  shows "load_start h a = Inr (g_start y)" and "load_len h a = Inr (g_len y)"
    and "load_end h a = Inr (g_end y)"
  using assms
  by (auto simp: group_at_def load_start_def load_len_def load_end_def
      split: option.splits obj.splits)

lemma group_start_refines:
  assumes "load_array h g = Inr gas" and "list_all2 (\<lambda>a y. group_at h a = Some y) gas gs"
    and "length gs = k"
  shows "group_start_in_store h g len k =
           Inr (if k = 0 then 0 else g_start (gs ! (k - 1)) + len + gapBetweenGroups)"
proof (cases "k = 0")
  case True
  then show ?thesis by (simp add: group_start_in_store_def)
next
  case False
  have n: "length gas = k" using assms(2,3) by (auto dest: list_all2_lengthD)
  then have j: "js_at gas (int k - 1) = Val (gas ! (k - 1))"
    using False by (auto simp: js_at_def nat_int_pred)
  have "k - 1 < length gas" using n False by simp
  with assms(2) have "group_at h (gas ! (k - 1)) = Some (gs ! (k - 1))"
    by (rule list_all2_nthD)
  then have "load_start h (gas ! (k - 1)) = Inr (g_start (gs ! (k - 1)))"
    by (rule group_at_loads)
  then show ?thesis
    using False assms(1) j by (simp add: group_start_in_store_def)
qed

lemma group_step_value:
  assumes "length gs = k"
  shows "group_step gs ps k =
     Inr (gs @ [\<lparr>g_start =
                   (if k = 0 then 0
                    else g_start (gs ! (k - 1)) + (int (length (photos ps)) - 1) +
                         gapBetweenGroups),
                 g_len = int (length (photos ps)) - 1,
                 g_end =
                   (if k = 0 then 0
                    else g_start (gs ! (k - 1)) + (int (length (photos ps)) - 1) +
                         gapBetweenGroups) + (int (length (photos ps)) - 1)\<rparr>])"
  using assms by (auto simp: group_step_def js_at_def Let_def nat_int_pred)

lemma group_step_refines:
  assumes g: "groups_at h g = Some gs" and s: "photoSet_at h s = Some ps" and k: "length gs = k"
  shows "\<exists>g' ext gs'. group_step_in_store h g s k = Inr (g', h @ ext) \<and>
           groups_at (h @ ext) g' = Some gs' \<and> group_step gs ps k = Inr gs'"
proof -
  from g obtain gas where gas: "load_array h g = Inr gas"
    and rel: "list_all2 (\<lambda>a y. group_at h a = Some y) gas gs"
    by (auto simp: groups_at_eq_Some)
  from photoSet_at_SomeD [OF s] obtain i t pa as where
    ls: "load h s = Some (PhotoSetObj i t pa)" and la: "load_array h pa = Inr as"
    and n: "length as = length (photos ps)" by blast
  have lp: "load_photos h s = Inr as" using ls la by (simp add: load_photos_def)
  define len where "len = int (length (photos ps)) - 1"
  define start where
    "start = (if k = 0 then 0 else g_start (gs ! (k - 1)) + len + gapBetweenGroups)"
  define new where "new = \<lparr>g_start = start, g_len = len, g_end = start + len\<rparr>"
  define ext where "ext = [GroupObj start len (start + len), ArrayObj (gas @ [length h])]"
  have st: "group_start_in_store h g len k = Inr start"
    unfolding start_def by (rule group_start_refines [OF gas rel k])
  have run: "group_step_in_store h g s k = Inr (Suc (length h), h @ ext)"
    using lp n st gas
    by (simp add: group_step_in_store_def alloc_def len_def ext_def Let_def)
  have pure: "group_step gs ps k = Inr (gs @ [new])"
    unfolding new_def start_def len_def by (rule group_step_value [OF k])
  have "load_array (h @ ext) (Suc (length h)) = Inr (gas @ [length h])"
    by (simp add: load_array_def load_def ext_def nth_append)
  moreover have "list_all2 (\<lambda>a y. group_at (h @ ext) a = Some y) (gas @ [length h]) (gs @ [new])"
  proof (rule list_all2_appendI)
    show "list_all2 (\<lambda>a y. group_at (h @ ext) a = Some y) gas gs"
      using rel by (rule list_all2_mono) (rule group_at_append)
    show "list_all2 (\<lambda>a y. group_at (h @ ext) a = Some y) [length h] [new]"
      by (simp add: group_at_def load_def ext_def new_def nth_append)
  qed
  ultimately have "groups_at (h @ ext) (Suc (length h)) = Some (gs @ [new])"
    by (auto simp: groups_at_eq_Some)
  then show ?thesis using run pure by blast
qed


lemma reduce_in_store_done:
  "\<not> k < n \<Longrightarrow> reduce_in_store h sets n groups k = Inr (groups, h)"
  by (simp add: reduce_in_store.simps [of h sets n groups k])

lemma reduce_refines:
  assumes "load_array h sets_a = Inr ss"
    and "list_all2 (\<lambda>a y. photoSet_at h a = Some y) ss sets"
    and "n = length ss"
    and "groups_at h acc = Some gs"
    and "length gs = k"
    and "k \<le> n"
  shows "\<exists>acc' ext gs'. reduce_in_store h sets_a n acc k = Inr (acc', h @ ext) \<and>
           groups_at (h @ ext) acc' = Some gs' \<and>
           reduce_groups gs k (drop k sets) = Inr gs'"
  using assms
proof (induction d \<equiv> "n - k" arbitrary: h acc gs k)
  case 0
  then have "k = n" by simp
  moreover have "length sets = n"
    using "0.prems"(2,3) by (auto dest: list_all2_lengthD)
  ultimately have "reduce_in_store h sets_a n acc k = Inr (acc, h @ [])"
    and "reduce_groups gs k (drop k sets) = Inr gs"
    by (simp_all add: reduce_in_store_done)
  then show ?case using "0.prems"(4) by (metis append_Nil2)
next
  case (Suc d)
  then have kn: "k < n" by simp
  have ls: "length sets = n"
    using Suc.prems(2,3) by (auto dest: list_all2_lengthD)
  have j: "js_at ss (int k) = Val (ss ! k)"
    using kn Suc.prems(3) by (simp add: js_at_def)
  have "k < length ss" using kn Suc.prems(3) by simp
  with Suc.prems(2) have sk: "photoSet_at h (ss ! k) = Some (sets ! k)"
    by (rule list_all2_nthD)
  from group_step_refines [OF Suc.prems(4) sk Suc.prems(5)]
  obtain g1 e1 gs1 where
    st: "group_step_in_store h acc (ss ! k) k = Inr (g1, h @ e1)" and
    g1: "groups_at (h @ e1) g1 = Some gs1" and
    p1: "group_step gs (sets ! k) k = Inr gs1"
    by blast
  have l1: "length gs1 = Suc k"
    using group_step_ok [OF Suc.prems(5), of "sets ! k"] p1 Suc.prems(5) by auto
  have a1: "load_array (h @ e1) sets_a = Inr ss"
    using Suc.prems(1) by (rule load_array_append)
  have r1: "list_all2 (\<lambda>a y. photoSet_at (h @ e1) a = Some y) ss sets"
    using Suc.prems(2) by (rule list_all2_mono) (rule photoSet_at_append)
  have d1: "d = n - Suc k" using Suc.hyps(2) by simp
  have k1: "Suc k \<le> n" using kn by simp
  from Suc.hyps(1) [OF d1 a1 r1 Suc.prems(3) g1 l1 k1]
  obtain acc' e2 gs' where
    r: "reduce_in_store (h @ e1) sets_a n g1 (Suc k) = Inr (acc', (h @ e1) @ e2)" and
    g': "groups_at ((h @ e1) @ e2) acc' = Some gs'" and
    p': "reduce_groups gs1 (Suc k) (drop (Suc k) sets) = Inr gs'"
    by blast
  have "reduce_in_store h sets_a n acc k = Inr (acc', h @ (e1 @ e2))"
    using kn Suc.prems(1) j st r by (simp add: reduce_in_store.simps [of h sets_a n acc k])
  moreover have "groups_at (h @ (e1 @ e2)) acc' = Some gs'" using g' by simp
  moreover have "drop k sets = sets ! k # drop (Suc k) sets"
    using kn ls by (simp add: Cons_nth_drop_Suc)
  then have "reduce_groups gs k (drop k sets) = Inr gs'" using p1 p' by simp
  ultimately show ?case by blast
qed

lemma photoSets_at_eq_Some:
  "photoSets_at h a = Some sets \<longleftrightarrow>
     (\<exists>ss. load_array h a = Inr ss \<and> list_all2 (\<lambda>a y. photoSet_at h a = Some y) ss sets)"
  by (auto simp: photoSets_at_def those_map_eq_Some split: sum.splits)

lemma compute_groups_refines:
  assumes "photoSets_at h a = Some sets"
  shows "\<exists>g ext gs. compute_groups_in_store h a = Inr (g, h @ ext) \<and>
           groups_at (h @ ext) g = Some gs \<and> compute_groups sets = Inr gs"
proof -
  from assms obtain ss where ss: "load_array h a = Inr ss"
    and rel: "list_all2 (\<lambda>a y. photoSet_at h a = Some y) ss sets"
    by (auto simp: photoSets_at_eq_Some)
  let ?h0 = "h @ [ArrayObj []]"
  have a0: "load_array ?h0 a = Inr ss" using ss by (rule load_array_append)
  have r0: "list_all2 (\<lambda>a y. photoSet_at ?h0 a = Some y) ss sets"
    using rel by (rule list_all2_mono) (rule photoSet_at_append)
  have g0: "groups_at ?h0 (length h) = Some []"
    by (simp add: groups_at_def load_array_def load_def)
  from reduce_refines [OF a0 r0 refl g0, of 0]
  obtain acc' ext gs' where
    "reduce_in_store ?h0 a (length ss) (length h) 0 = Inr (acc', ?h0 @ ext)"
    "groups_at (?h0 @ ext) acc' = Some gs'"
    "reduce_groups [] 0 sets = Inr gs'"
    by auto
  then have "compute_groups_in_store h a = Inr (acc', h @ ([ArrayObj []] @ ext))"
    and "groups_at (h @ ([ArrayObj []] @ ext)) acc' = Some gs'"
    and "compute_groups sets = Inr gs'"
    using a0 by (simp_all add: compute_groups_in_store_def alloc_def compute_groups_def)
  then show ?thesis by blast
qed


lemma js_at_related:
  assumes "list_all2 R xs ys"
  shows "(\<exists>x y. js_at xs i = Val x \<and> js_at ys i = Val y \<and> R x y) \<or>
         (js_at xs i = Undefined \<and> js_at ys i = Undefined)"
proof -
  have n: "length xs = length ys" using assms by (rule list_all2_lengthD)
  show ?thesis
  proof (cases "0 \<le> i \<and> i < int (length xs)")
    case True
    then have "nat i < length xs" by arith
    with assms have "R (xs ! nat i) (ys ! nat i)" by (rule list_all2_nthD)
    then show ?thesis using True n by (simp add: js_at_def)
  next
    case False
    then show ?thesis using n by (auto simp: js_at_def)
  qed
qed

lemma total_refines:
  assumes "groups_at h g = Some gs"
  shows "total_in_store h g = total_of gs"
proof -
  from assms obtain gas where gas: "load_array h g = Inr gas"
    and rel: "list_all2 (\<lambda>a y. group_at h a = Some y) gas gs"
    by (auto simp: groups_at_eq_Some)
  have n: "length gas = length gs" using rel by (rule list_all2_lengthD)
  from js_at_related [OF rel, of "int (length gs) - 1"] show ?thesis
    using gas n by (auto simp: total_in_store_def total_of_def group_at_loads)
qed

lemma startOfGroup_refines:
  assumes "groups_at h g = Some gs"
  shows "startOfGroup_in_store h g t i = startOfGroup gs t i"
proof -
  from assms obtain gas where gas: "load_array h g = Inr gas"
    and rel: "list_all2 (\<lambda>a y. group_at h a = Some y) gas gs"
    by (auto simp: groups_at_eq_Some)
  from js_at_related [OF rel, of "int i"] show ?thesis
    using gas by (auto simp: startOfGroup_in_store_def startOfGroup_def group_at_loads)
qed

lemma lenOfGroup_refines:
  assumes "groups_at h g = Some gs"
  shows "lenOfGroup_in_store h g t i = lenOfGroup gs t i"
proof -
  from assms obtain gas where gas: "load_array h g = Inr gas"
    and rel: "list_all2 (\<lambda>a y. group_at h a = Some y) gas gs"
    by (auto simp: groups_at_eq_Some)
  from js_at_related [OF rel, of "int i"] show ?thesis
    using gas by (auto simp: lenOfGroup_in_store_def lenOfGroup_def group_at_loads)
qed

lemma cards_keys:
  "map card_key (cards (Cards ps cat from len radius hov)) =
     map (card_angle_at (length ps) from len) [0..<length ps]"
  by (simp add: Cards_def make_card_def Let_def)

lemma set_angles_refines:
  assumes "groups_at h g = Some gs" and "photoSet_at h s = Some ps"
  shows "set_angles_in_store h g t s i =
           map_sum id (\<lambda>cv. map card_key (cards cv)) (render_cards gs t hov ps i)"
proof -
  from photoSet_at_SomeD [OF assms(2)] obtain i' t' pa as where
    ls: "load h s = Some (PhotoSetObj i' t' pa)" and la: "load_array h pa = Inr as"
    and n: "length as = length (photos ps)" by blast
  show ?thesis
    using ls la n
    by (simp add: set_angles_in_store_def render_cards_def card_angles_in_store_def
        startOfGroup_refines [OF assms(1)] lenOfGroup_refines [OF assms(1)] cards_keys Let_def
        split: sum.splits)
qed

lemma map_angles_refines:
  assumes "groups_at h g = Some gs"
    and "list_all2 (\<lambda>a y. photoSet_at h a = Some y) ss sets"
  shows "map_angles_in_store h g t i ss =
           map_sum id (map (\<lambda>cv. map card_key (cards cv))) (map_cards gs t hov i sets)"
  using assms(2)
proof (induction ss sets arbitrary: i rule: list_all2_induct)
  case Nil
  then show ?case by simp
next
  case (Cons s ss ps sets)
  show ?case
    using Cons.IH [of "Suc i"] set_angles_refines [OF assms(1) Cons.hyps(1), of t i hov]
    by (simp split: sum.splits)
qed

lemma layout_refines:
  assumes "photoSets_at h a = Some (photoSets st)"
  shows "case Scene st of
           Inl e \<Rightarrow> layout_in_store h a = Inl e
         | Inr (st', v) \<Rightarrow>
             (\<exists>ext. layout_in_store h a =
                Inr (h @ ext, map (\<lambda>cv. map card_key (cards cv)) (groups_view v)))"
proof -
  from compute_groups_refines [OF assms] obtain g ext gs where
    c: "compute_groups_in_store h a = Inr (g, h @ ext)" and
    g: "groups_at (h @ ext) g = Some gs" and
    p: "compute_groups (photoSets st) = Inr gs"
    by blast
  from assms have "photoSets_at (h @ ext) a = Some (photoSets st)"
    by (rule photoSets_at_append)
  then obtain ss where ss: "load_array (h @ ext) a = Inr ss"
    and rel: "list_all2 (\<lambda>a y. photoSet_at (h @ ext) a = Some y) ss (photoSets st)"
    by (auto simp: photoSets_at_eq_Some)
  note t = total_refines [OF g]
  note m = map_angles_refines [OF g rel, of _ 0 "hovered_of st"]
  show ?thesis
    using c p ss t m
    by (auto simp: layout_in_store_def Scene_def split: sum.splits)
qed


lemma onPointerOver_in_store_keeps:
  assumes "load h hcell = Some (HoveredCell x)" and "load h cell = Some (HoveredPhotoCell y)"
    and "onPointerOver_in_store hcell cell s i h = Inr h'"
  shows "photoSets_at h' a = photoSets_at h a"
  using hover_handlers_keep_photoSets [OF assms(1) _ assms(2) _ assms(3) [unfolded onPointerOver_in_store_def]]
  by simp

lemma onPointerOut_in_store_keeps:
  assumes "load h hcell = Some (HoveredCell x)" and "load h cell = Some (HoveredPhotoCell y)"
    and "onPointerOut_in_store hcell cell s h = Inr h'"
  shows "photoSets_at h' a = photoSets_at h a"
  using hover_handlers_keep_photoSets [OF assms(1) _ assms(2) _ assms(3) [unfolded onPointerOut_in_store_def]]
  by simp

lemma example_store_photoSets:
  "photoSets_at example_store 4 =
     Some [example_set ''a'' [example_photo ''p'', example_photo ''q'']]"
  by (simp add: example_store_def photoSets_at_def photoSet_at_def photos_at_def photo_at_def
      load_array_def load_def example_set_def)

text \<open>
  The store built from a list holds that list, so the computation over the store is
  defined for every non-empty list of photo sets and leaves it as it was.
\<close>

lemma store_photos_holds:
  "store_photos h ps = (as, h') \<Longrightarrow>
     (\<exists>ext. h' = h @ ext) \<and> list_all2 (\<lambda>a p. photo_at h' a = Some p) as ps"
proof (induction ps arbitrary: h as h')
  case Nil
  then show ?case by simp
next
  case (Cons p ps)
  obtain as2 h2 where r: "store_photos (h @ [PhotoObj p]) ps = (as2, h2)"
    by (cases "store_photos (h @ [PhotoObj p]) ps")
  with Cons.prems have eq: "as = length h # as2" "h' = h2"
    by (simp_all add: alloc_def)
  from Cons.IH [OF r] obtain ext where
    e: "h2 = (h @ [PhotoObj p]) @ ext" and
    l: "list_all2 (\<lambda>a p. photo_at h2 a = Some p) as2 ps"
    by blast
  have "photo_at (h @ [PhotoObj p]) (length h) = Some p"
    by (simp add: photo_at_def load_def)
  then have "photo_at h2 (length h) = Some p"
    unfolding e by (rule photo_at_append)
  then show ?case using eq e l by simp
qed

lemma store_photoSet_holds:
  assumes "store_photoSet h s = (a, h')"
  shows "(\<exists>ext. h' = h @ ext) \<and> photoSet_at h' a = Some s"
proof -
  obtain as h1 where r: "store_photos h (photos s) = (as, h1)"
    by (cases "store_photos h (photos s)")
  from store_photos_holds [OF r] obtain ext where
    e: "h1 = h @ ext" and l: "list_all2 (\<lambda>a p. photo_at h1 a = Some p) as (photos s)"
    by blast
  let ?tail = "[ArrayObj as, PhotoSetObj (set_id s) (set_title s) (length h1)]"
  have a: "a = Suc (length h1)" and h': "h' = h1 @ ?tail"
    using assms r by (simp_all add: store_photoSet_def alloc_def)
  have "list_all2 (\<lambda>a p. photo_at h' a = Some p) as (photos s)"
    unfolding h' using l by (rule list_all2_mono) (rule photo_at_append)
  moreover have "load_array h' (length h1) = Inr as"
    unfolding h' by (simp add: load_array_def load_def nth_append)
  ultimately have "photos_at h' (length h1) = Some (photos s)"
    by (simp add: photos_at_def those_map_eq_Some)
  moreover have "load h' a = Some (PhotoSetObj (set_id s) (set_title s) (length h1))"
    unfolding h' a by (simp add: load_def nth_append)
  ultimately have "photoSet_at h' a = Some s" by (simp add: photoSet_at_def)
  then show ?thesis using e h' by simp
qed

lemma store_photoSet_list_holds:
  "store_photoSet_list h sets = (as, h') \<Longrightarrow>
     (\<exists>ext. h' = h @ ext) \<and> list_all2 (\<lambda>a s. photoSet_at h' a = Some s) as sets"
proof (induction sets arbitrary: h as h')
  case Nil
  then show ?case by simp
next
  case (Cons s sets)
  obtain a h1 where r1: "store_photoSet h s = (a, h1)" by (cases "store_photoSet h s")
  obtain as2 h2 where r2: "store_photoSet_list h1 sets = (as2, h2)"
    by (cases "store_photoSet_list h1 sets")
  from Cons.prems r1 r2 have eq: "as = a # as2" "h' = h2" by simp_all
  from store_photoSet_holds [OF r1] obtain e1 where
    e1: "h1 = h @ e1" and s1: "photoSet_at h1 a = Some s" by blast
  from Cons.IH [OF r2] obtain e2 where
    e2: "h2 = h1 @ e2" and l: "list_all2 (\<lambda>a s. photoSet_at h2 a = Some s) as2 sets"
    by blast
  have "photoSet_at h2 a = Some s" unfolding e2 using s1 by (rule photoSet_at_append)
  then show ?case using eq e1 e2 l by simp
qed

lemma store_photoSets_holds:
  assumes "store_photoSets h sets = (a, h')"
  shows "photoSets_at h' a = Some sets"
proof -
  obtain as h1 where r: "store_photoSet_list h sets = (as, h1)"
    by (cases "store_photoSet_list h sets")
  from store_photoSet_list_holds [OF r]
  have l: "list_all2 (\<lambda>a s. photoSet_at h1 a = Some s) as sets" by blast
  have a: "a = length h1" and h': "h' = h1 @ [ArrayObj as]"
    using assms r by (simp_all add: store_photoSets_def alloc_def)
  have "list_all2 (\<lambda>a s. photoSet_at h' a = Some s) as sets"
    unfolding h' using l by (rule list_all2_mono) (rule photoSet_at_append)
  moreover have "load_array h' a = Inr as"
    unfolding h' a by (simp add: load_array_def load_def)
  ultimately show ?thesis by (auto simp: photoSets_at_eq_Some)
qed

lemma layout_on_every_input:
  assumes "sets \<noteq> []" and "store_photoSets [] sets = (a, h)"
  shows "\<exists>h' angles. layout_in_store h a = Inr (h', angles) \<and>
           take (length h) h' = h \<and> photoSets_at h' a = Some sets"
proof -
  let ?st = "initial_state sets"
  have p: "photoSets_at h a = Some (photoSets ?st)"
    using store_photoSets_holds [OF assms(2)] by (simp add: initial_state_def)
  have "photoSets ?st \<noteq> []" using assms(1) by (simp add: initial_state_def)
  then obtain v where "Scene ?st = Inr (?st, v)" using Scene_nonempty by blast
  with layout_refines [OF p] obtain ext where
    l: "layout_in_store h a =
          Inr (h @ ext, map (\<lambda>cv. map card_key (cards cv)) (groups_view v))"
    by auto
  have "photoSets_at (h @ ext) a = Some sets"
    using p by (simp add: initial_state_def photoSets_at_append)
  then show ?thesis using l by simp
qed

section \<open>The claims\<close>

text \<open>
  C1 says that for \<open>i \<ge> 1\<close> group \<open>i\<close> starts where group \<open>i - 1\<close> ends, plus the gap
  of 2 points. The callback adds the gap and the length of the \<^emph>\<open>current\<close> set to the
  \<^emph>\<open>start\<close> of the previous group (lemma \<open>groups_recurrence\<close>), so the two agree only
  when both sets have as many photos. For a set of two photos followed by a set of one
  photo the groups are \<open>{0, 1, 1}\<close> and \<open>{2, 0, 2}\<close>: the second starts at 2, not at
  \<open>1 + 2 = 3\<close>.
\<close>

theorem group_start_ignores_previous_len:
  "compute_groups
     [example_set ''a'' [example_photo ''p'', example_photo ''q''],
      example_set ''b'' [example_photo ''r'']] =
     Inr [\<lparr>g_start = 0, g_len = 1, g_end = 1\<rparr>, \<lparr>g_start = 2, g_len = 0, g_end = 2\<rparr>]
   \<and> g_start \<lparr>g_start = 2, g_len = 0, g_end = 2\<rparr> \<noteq>
       g_end \<lparr>g_start = 0, g_len = 1, g_end = 1\<rparr> + gapBetweenGroups"
  by (simp add: compute_groups_def group_step_def js_at_def example_set_def gapBetweenGroups_def)

text \<open>
  C4: for the empty list of photo sets the \<^verbatim>\<open>groups\<close> array is empty, reading
  \<^verbatim>\<open>.end\<close> of its last element throws, and so does the render of \<^verbatim>\<open>Scene\<close>; for
  every non-empty list the read gives the total and the render returns.
\<close>

theorem scene_needs_a_photo_set:
  "(photoSets st = [] \<longrightarrow>
      scene_total (photoSets st) = Inl TypeError \<and> Scene st = Inl TypeError) \<and>
   (photoSets st \<noteq> [] \<longrightarrow>
      (\<exists>t. scene_total (photoSets st) = Inr t) \<and> (\<exists>v. Scene st = Inr (st, v)))"
proof (intro conjI impI)
  assume e: "photoSets st = []"
  show "scene_total (photoSets st) = Inl TypeError"
    using e by (simp add: scene_total_def compute_groups_def total_of_empty)
  show "Scene st = Inl TypeError" using e by (rule Scene_empty)
next
  assume n: "photoSets st \<noteq> []"
  obtain gs where gs: "compute_groups (photoSets st) = Inr gs" "length gs = length (photoSets st)"
    using compute_groups_ok by blast
  then have "gs \<noteq> []" using n by auto
  then have "total_of gs = Inr (g_end (last gs))" by (rule total_of_nonempty)
  then show "\<exists>t. scene_total (photoSets st) = Inr t"
    using gs by (simp add: scene_total_def)
  show "\<exists>v. Scene st = Inr (st, v)" using n by (rule Scene_nonempty)
qed

theorem scene_needs_a_photo_set_witness:
  "photoSets (initial_state []) = [] \<and>
   Scene (initial_state []) = Inl TypeError \<and>
   photoSets (initial_state [example_set ''a'' [example_photo ''p'']]) \<noteq> [] \<and>
   (\<exists>v. Scene (initial_state [example_set ''a'' [example_photo ''p'']]) =
          Inr (initial_state [example_set ''a'' [example_photo ''p'']], v))"
  using scene_needs_a_photo_set [of "initial_state []"]
    scene_needs_a_photo_set [of "initial_state [example_set ''a'' [example_photo ''p'']]"]
  by (simp add: initial_state_def)




text \<open>
  C3 says that the order of the cards on the circle is the order of the photos. For a set of
  five photos followed by a set of one photo the groups are \<open>{0, 4, 4}\<close> and \<open>{2, 0, 2}\<close>
  (the start of the second group comes from the length of the second set, as for C1), the
  total is 2, and the first set gets the angular length \<open>2 * pi * 4 / 2\<close>, two full turns.
  Its cards are at \<open>0\<close>, \<open>4 * pi / 5\<close>, \<open>8 * pi / 5\<close>, \<open>12 * pi / 5\<close> and \<open>16 * pi / 5\<close>:
  card 3 stands where the angle \<open>2 * pi / 5\<close> is, between card 0 and card 1.
\<close>

theorem cards_wrap_past_a_full_turn:
  "\<exists>v. Scene (initial_state
           [example_set ''a'' [example_photo ''p'', example_photo ''q'', example_photo ''r'',
                               example_photo ''s'', example_photo ''t''],
            example_set ''b'' [example_photo ''u'']]) =
         Inr (initial_state
           [example_set ''a'' [example_photo ''p'', example_photo ''q'', example_photo ''r'',
                               example_photo ''s'', example_photo ''t''],
            example_set ''b'' [example_photo ''u'']], v) \<and>
       map card_key (cards (groups_view v ! 0)) =
         [Num 0, Num (4 * pi / 5), Num (8 * pi / 5), Num (12 * pi / 5), Num (16 * pi / 5)] \<and>
       card_position (cards (groups_view v ! 0) ! 1) =
         (Num (sin (4 * pi / 5) * 15), Num 0, Num (cos (4 * pi / 5) * 15)) \<and>
       card_position (cards (groups_view v ! 0) ! 3) =
         (Num (sin (2 * pi / 5) * 15), Num 0, Num (cos (2 * pi / 5) * 15)) \<and>
       0 < 2 * pi / 5 \<and> 2 * pi / 5 < 4 * pi / 5 \<and> 4 * pi / 5 < 2 * pi"
proof -
  have e: "12 * pi / 5 = 2 * pi / 5 + 2 * pi" by simp
  have s: "sin (12 * pi / 5) = sin (2 * pi / 5)" unfolding e by (rule sin_periodic)
  have c: "cos (12 * pi / 5) = cos (2 * pi / 5)" unfolding e by (rule cos_periodic)
  show ?thesis
    by (simp add: Scene_def initial_state_def compute_groups_def group_step_def js_at_def
        example_set_def gapBetweenGroups_def total_of_def render_cards_def startOfGroup_def
        lenOfGroup_def pointToRadian_def Math_PI_def Cards_def make_card_def card_angle_at_def
        Let_def s c)
qed

text \<open>
  C5: when the input is one photo set of one photo, the total is 0,
  \<^verbatim>\<open>pointToRadian\<close> divides zero by zero, and the angle of the only card is NaN, which
  is not finite. When the last group ends at a positive point \<open>t\<close>, \<^verbatim>\<open>pointToRadian\<close>
  of any point is the finite number \<open>pi * 2 * point / t\<close>.
\<close>

theorem single_photo_divides_by_zero:
  "(photoSets st = [s] \<and> length (photos s) = 1 \<longrightarrow>
      scene_total [s] = Inr 0 \<and>
      pointToRadian 0 0 = NaN \<and>
      (\<exists>v cv c. Scene st = Inr (st, v) \<and> groups_view v = [cv] \<and> cards cv = [c] \<and>
         card_angle c = NaN \<and> \<not> is_finite (card_angle c))) \<and>
   (scene_total sets = Inr t \<and> 0 < t \<longrightarrow>
      pointToRadian t point = Num (pi * 2 * real_of_int point / real_of_int t) \<and>
      is_finite (pointToRadian t point))"
proof (intro conjI impI)
  assume a: "photoSets st = [s] \<and> length (photos s) = 1"
  show "scene_total [s] = Inr 0"
    using a by (simp add: scene_total_def single_photo_groups total_of_def js_at_def)
  show "pointToRadian 0 0 = NaN" by (rule pointToRadian_zero_total)
  from a have sc: "Scene st =
     Inr (st, \<lparr>groups_view = [Cards (photos s) (set_title s) NaN NaN (Num 15) (hovered_of st 0)],
               active_view = active_preview st\<rparr>)"
    by (simp add: single_photo_scene)
  from a obtain c where
    "cards (Cards (photos s) (set_title s) NaN NaN (Num 15) (hovered_of st 0)) = [c]"
    "card_angle c = NaN"
    using single_photo_cards by blast
  then show "\<exists>v cv c. Scene st = Inr (st, v) \<and> groups_view v = [cv] \<and> cards cv = [c] \<and>
         card_angle c = NaN \<and> \<not> is_finite (card_angle c)"
    using sc by simp
next
  assume b: "scene_total sets = Inr t \<and> 0 < t"
  then have "t \<noteq> 0" by simp
  then show "pointToRadian t point = Num (pi * 2 * real_of_int point / real_of_int t)"
    by (rule pointToRadian_finite)
  then show "is_finite (pointToRadian t point)" by simp
qed

theorem single_photo_divides_by_zero_witness:
  "photoSets (initial_state [example_set ''a'' [example_photo ''p'']]) =
     [example_set ''a'' [example_photo ''p'']] \<and>
   length (photos (example_set ''a'' [example_photo ''p''])) = 1 \<and>
   scene_total [example_set ''a'' [example_photo ''p'']] = Inr 0 \<and>
   scene_total [example_set ''a'' [example_photo ''p'', example_photo ''q'']] = Inr 1 \<and>
   (0::int) < 1 \<and>
   pointToRadian 1 1 = Num (pi * 2)"
  using single_photo_divides_by_zero
    [of "initial_state [example_set ''a'' [example_photo ''p'']]"
        "example_set ''a'' [example_photo ''p'']"
        "[example_set ''a'' [example_photo ''p'', example_photo ''q'']]" 1 1]
  by (simp add: initial_state_def example_set_def scene_total_def compute_groups_def
      group_step_def total_of_def js_at_def)

text \<open>
  C6: when the call of \<^verbatim>\<open>getAllPhotos\<close> rejects with an error, \<^verbatim>\<open>Page\<close> rejects
  with that same error: it returns no markup, so no gallery, and it has made one call, so
  it has not tried again.
\<close>

theorem page_fetch_failure_is_rethrown:
  "fetch calls = Inl e \<Longrightarrow> Page fetch calls = (Inl e, Suc calls)"
  by (simp add: Page_def getAllPhotos_def)

theorem page_fetch_failure_is_rethrown_witness:
  "(\<lambda>n::nat. Inl ''network error'' :: string + PhotoSet list) 0 = Inl ''network error'' \<and>
   Page (\<lambda>n::nat. Inl ''network error'' :: string + PhotoSet list) 0 =
     (Inl ''network error'', Suc 0)"
  using page_fetch_failure_is_rethrown
    [of "\<lambda>n::nat. Inl ''network error'' :: string + PhotoSet list" 0 "''network error''"]
  by simp

text \<open>
  C7: when the store holds the photo sets \<open>sets\<close> at the address \<open>a\<close>, computing the
  groups, the total and the angles of the cards changes no object that was in the store
  (the objects it allocates come after them), and the photo sets read back at \<open>a\<close>
  afterwards are \<open>sets\<close>: every set with its id, its title and its sequence of photos. The
  hover handlers assign to the two cells of state only, and the photo sets read back after
  them are \<open>sets\<close> as well. Lemma \<open>layout_refines\<close> shows that the computation over the store
  fails exactly when \<open>Scene\<close> does and otherwise returns the keys of the cards that \<open>Scene\<close>
  draws; lemma \<open>layout_on_every_input\<close> shows that every non-empty list of photo sets has a
  store on which the computation returns.
\<close>

theorem layout_and_hover_leave_photoSets:
  assumes "photoSets_at h a = Some sets"
  shows "(layout_in_store h a = Inr (h', angles) \<longrightarrow>
            take (length h) h' = h \<and> photoSets_at h' a = Some sets) \<and>
         (load h hcell = Some (HoveredCell x) \<and> load h cell = Some (HoveredPhotoCell y) \<and>
          onPointerOver_in_store hcell cell s i h = Inr h1 \<longrightarrow>
            photoSets_at h1 a = Some sets) \<and>
         (load h hcell = Some (HoveredCell x) \<and> load h cell = Some (HoveredPhotoCell y) \<and>
          onPointerOut_in_store hcell cell s h = Inr h2 \<longrightarrow>
            photoSets_at h2 a = Some sets)"
proof (intro conjI impI)
  assume "layout_in_store h a = Inr (h', angles)"
  then obtain ext where e: "h' = h @ ext" using layout_in_store_extends by blast
  show "take (length h) h' = h" using e by simp
  show "photoSets_at h' a = Some sets"
    unfolding e using assms by (rule photoSets_at_append)
next
  assume "load h hcell = Some (HoveredCell x) \<and> load h cell = Some (HoveredPhotoCell y) \<and>
          onPointerOver_in_store hcell cell s i h = Inr h1"
  then show "photoSets_at h1 a = Some sets"
    using assms onPointerOver_in_store_keeps [of h hcell x cell y s i h1 a] by simp
next
  assume "load h hcell = Some (HoveredCell x) \<and> load h cell = Some (HoveredPhotoCell y) \<and>
          onPointerOut_in_store hcell cell s h = Inr h2"
  then show "photoSets_at h2 a = Some sets"
    using assms onPointerOut_in_store_keeps [of h hcell x cell y s h2 a] by simp
qed

theorem layout_and_hover_leave_photoSets_witness:
  "photoSets_at example_store 4 =
     Some [example_set ''a'' [example_photo ''p'', example_photo ''q'']] \<and>
   load example_store 5 = Some (HoveredCell None) \<and>
   load example_store 6 = Some (HoveredPhotoCell Null) \<and>
   (\<exists>h' angles. layout_in_store example_store 4 = Inr (h', angles) \<and>
      take (length example_store) h' = example_store \<and>
      photoSets_at h' 4 = Some [example_set ''a'' [example_photo ''p'', example_photo ''q'']]) \<and>
   (\<exists>h1. onPointerOver_in_store 5 6 3 1 example_store = Inr h1 \<and>
      load h1 6 = Some (HoveredPhotoCell (Val 1)) \<and>
      photoSets_at h1 4 = Some [example_set ''a'' [example_photo ''p'', example_photo ''q'']]) \<and>
   (\<exists>h2. onPointerOut_in_store 5 6 3 example_store = Inr h2 \<and>
      load h2 6 = Some (HoveredPhotoCell Undefined) \<and>
      photoSets_at h2 4 = Some [example_set ''a'' [example_photo ''p'', example_photo ''q'']])"
proof -
  let ?sets = "[example_set ''a'' [example_photo ''p'', example_photo ''q'']]"
  let ?st = "initial_state ?sets"
  note p = example_store_photoSets
  have c1: "load example_store 5 = Some (HoveredCell None)"
    and c2: "load example_store 6 = Some (HoveredPhotoCell Null)"
    by (simp_all add: example_store_def load_def)
  have "photoSets ?st \<noteq> []" by (simp add: initial_state_def)
  then obtain v where v: "Scene ?st = Inr (?st, v)" using Scene_nonempty by blast
  have "photoSets_at example_store 4 = Some (photoSets ?st)"
    using p by (simp add: initial_state_def)
  from layout_refines [OF this] v obtain ext where
    l: "layout_in_store example_store 4 =
          Inr (example_store @ ext, map (\<lambda>cv. map card_key (cards cv)) (groups_view v))"
    by auto
  obtain h1 where h1: "onPointerOver_in_store 5 6 3 1 example_store = Inr h1"
    and v1: "load h1 6 = Some (HoveredPhotoCell (Val 1))"
    by (simp add: onPointerOver_in_store_def onHoverCard_in_store_def hover_in_store_def
        load_photos_def load_array_def load_def assign_def example_store_def js_index_def
        js_at_def)
  obtain h2 where h2: "onPointerOut_in_store 5 6 3 example_store = Inr h2"
    and v2: "load h2 6 = Some (HoveredPhotoCell Undefined)"
    by (simp add: onPointerOut_in_store_def onHoverCard_in_store_def hover_in_store_def
        load_photos_def load_array_def load_def assign_def example_store_def js_index_def)
  note t = layout_and_hover_leave_photoSets
             [OF p, of "example_store @ ext" "map (\<lambda>cv. map card_key (cards cv)) (groups_view v)"
                5 None 6 Null 3 1 h1 h2]
  from t l have a: "take (length example_store) (example_store @ ext) = example_store \<and>
      photoSets_at (example_store @ ext) 4 = Some ?sets" by blast
  from t c1 c2 h1 have b: "photoSets_at h1 4 = Some ?sets" by blast
  from t c1 c2 h2 have c: "photoSets_at h2 4 = Some ?sets" by blast
  show ?thesis using p c1 c2 l a h1 v1 b h2 v2 c by blast
qed

text \<open>
  C9: whatever the call gives, \<^verbatim>\<open>Page\<close> calls \<^verbatim>\<open>getAllPhotos\<close> exactly once;
  when the call fulfils with photos, the markup holds the gallery of exactly these photos;
  and the result depends on how this one call settles only, not on what a later call
  would give (nothing is tried again).
\<close>

theorem page_fetches_once_before_gallery:
  "snd (Page fetch calls) = Suc calls \<and>
   (fetch calls = Inr p \<longrightarrow>
      fst (Page fetch calls) =
        Inr \<lparr>heading = ''Lubbock'', subheading = ''Bordeaux'', gallery_photos = p\<rparr>) \<and>
   (fetch' calls = fetch calls \<longrightarrow> Page fetch' calls = Page fetch calls)"
  by (auto simp: Page_def getAllPhotos_def split: sum.splits)

theorem page_fetches_once_before_gallery_witness:
  "(\<lambda>n::nat. if n = 0 then Inr [example_set ''a'' []] else Inl ''late'') 0 =
     (Inr [example_set ''a'' []] :: string + PhotoSet list) \<and>
   (\<lambda>n::nat. Inr [example_set ''a'' []] :: string + PhotoSet list) 0 =
     (\<lambda>n::nat. if n = 0 then Inr [example_set ''a'' []] else Inl ''late'') 0 \<and>
   Page (\<lambda>n::nat. if n = 0 then Inr [example_set ''a'' []] else Inl ''late'') 0 =
     (Inr \<lparr>heading = ''Lubbock'', subheading = ''Bordeaux'',
           gallery_photos = [example_set ''a'' []]\<rparr>, Suc 0) \<and>
   Page (\<lambda>n::nat. Inr [example_set ''a'' []] :: string + PhotoSet list) 0 =
     Page (\<lambda>n::nat. if n = 0 then Inr [example_set ''a'' []] else Inl ''late'') 0"
  using page_fetches_once_before_gallery
    [of "\<lambda>n::nat. if n = 0 then Inr [example_set ''a'' []] else Inl ''late''" 0
        "[example_set ''a'' []]"
        "\<lambda>n::nat. Inr [example_set ''a'' []] :: string + PhotoSet list"]
  by (simp add: prod_eq_iff)

text \<open>
  C10: the pointer-out handler of a card calls the hover callback with \<^verbatim>\<open>null\<close>;
  \<^verbatim>\<open>photoSet.photos[null]\<close> is \<^verbatim>\<open>undefined\<close>, which is falsy, so whatever the set
  and the state before, \<^verbatim>\<open>hoveredPhoto\<close> is \<^verbatim>\<open>undefined\<close> afterwards and the next
  render of \<^verbatim>\<open>Scene\<close> draws no preview.
\<close>

theorem pointer_out_removes_preview:
  "js_index (photos photoSet) None = Undefined \<and>
   hoveredPhoto (onPointerOut g photoSet st) = Undefined \<and>
   \<not> truthy (hoveredPhoto (onPointerOut g photoSet st)) \<and>
   active_preview (onPointerOut g photoSet st) = None \<and>
   (Scene (onPointerOut g photoSet st) = Inr (st', v) \<longrightarrow> active_view v = None)"
proof -
  have h: "hoveredPhoto (onPointerOut g photoSet st) = Undefined"
    by (simp add: onPointerOut_def onHoverCard_def js_index_def)
  then have p: "active_preview (onPointerOut g photoSet st) = None"
    by (simp add: active_preview_def)
  show ?thesis
    using h p Scene_result [of "onPointerOut g photoSet st" st' v]
    by (auto simp: js_index_def)
qed

theorem pointer_out_removes_preview_witness:
  "active_preview
     (onPointerOver 0 (example_set ''a'' [example_photo ''p'']) 0
        (initial_state [example_set ''a'' [example_photo ''p'']])) \<noteq> None \<and>
   (\<exists>st' v. Scene (onPointerOut 0 (example_set ''a'' [example_photo ''p''])
              (onPointerOver 0 (example_set ''a'' [example_photo ''p'']) 0
                 (initial_state [example_set ''a'' [example_photo ''p'']]))) = Inr (st', v) \<and>
         active_view v = None)"
proof -
  let ?s = "example_set ''a'' [example_photo ''p'']"
  let ?st = "onPointerOut 0 ?s (onPointerOver 0 ?s 0 (initial_state [?s]))"
  have "active_preview (onPointerOver 0 ?s 0 (initial_state [?s])) \<noteq> None"
    by (simp add: active_preview_def onPointerOver_def onHoverCard_def hover_def
        initial_state_def js_index_def js_at_def example_set_def)
  moreover have "photoSets ?st \<noteq> []"
    by (simp add: onPointerOut_def onPointerOver_def onHoverCard_def hover_def initial_state_def)
  then obtain v where v: "Scene ?st = Inr (?st, v)" using Scene_nonempty by blast
  with pointer_out_removes_preview
         [of ?s 0 "onPointerOver 0 ?s 0 (initial_state [?s])" ?st v]
  have "active_view v = None" by simp
  ultimately show ?thesis using v by blast
qed

end
